theory Spec2Isabelle
  imports Complex_Main "HOL-Library.Word" "HOL-Library.Log_Nat"
begin

section \<open>Data model\<close>

text \<open>
  The audio buffer is a Python \<open>bytes\<close> object: a list of 8-bit words.  A frame, as
  \<open>frame_generator\<close> yields it, is the triple (bytes, timestamp, duration); a segment, as
  \<open>vad_collector\<close> yields it, is the pair (start_time, end_time).  The integer parameters
  are Python ints.  The collector only copies timestamps and adds a duration to a
  timestamp, so its model is polymorphic in the type of the timestamps, which needs
  nothing but an addition.
\<close>

type_synonym bytes = "8 word list"
type_synonym 't frame = "bytes \<times> 't \<times> 't"
type_synonym 't segment = "'t \<times> 't"
type_synonym speech_oracle = "bytes \<Rightarrow> int \<Rightarrow> bool"

text \<open>The built-in exceptions that the two functions can raise.\<close>

datatype py_error = ZeroDivisionError | ValueError | OverflowError | UnboundLocalError

section \<open>Python floats\<close>

text \<open>
  A Python float is an IEEE 754 binary64 number.  \<open>Finite m e\<close> is the number
  \<open>m * 2 ^ e\<close>; the arithmetic below returns it with \<open>m\<close> odd, or as \<open>Finite 0 0\<close>.  The two
  zeros of binary64 are not told apart: they compare equal, and no operation used here
  separates them.
\<close>

datatype py_float = Finite int int | PosInf | NegInf | NaN

function strip_zeros :: "int \<Rightarrow> int \<Rightarrow> py_float" where
  "strip_zeros m e =
     (if m = 0 then Finite 0 0
      else if even m then strip_zeros (m div 2) (e + 1)
      else Finite m e)"
  by pat_completeness auto
termination
  by (relation "measure (\<lambda>(m, e). nat \<bar>m\<bar>)") auto

declare strip_zeros.simps [simp del]

text \<open>
  The binary exponent of the fraction \<open>a / q\<close>, for \<open>a > 0\<close> and \<open>q > 0\<close>: the \<open>e\<close> with
  \<open>2 ^ e \<le> a / q < 2 ^ (e + 1)\<close>, which the bit lengths give up to one.
\<close>

definition binade :: "int \<Rightarrow> int \<Rightarrow> int" where
  "binade a q =
     (let e0 = bitlen a - bitlen q
      in if (if 0 \<le> e0 then q * 2 ^ nat e0 \<le> a else q \<le> a * 2 ^ nat (- e0))
         then e0 else e0 - 1)"

text \<open>
  The integer nearest to \<open>num / den\<close>, for \<open>num \<ge> 0\<close> and \<open>den > 0\<close>, a tie going to the
  even one.
\<close>

definition round_div :: "int \<Rightarrow> int \<Rightarrow> int" where
  "round_div num den =
     (let f = num div den; r = num mod den
      in if 2 * r < den then f
         else if den < 2 * r then f + 1
         else if even f then f else f + 1)"

text \<open>
  The binary64 number nearest to the fraction \<open>p / q\<close>, for \<open>q > 0\<close>, ties going to the
  even significand.  \<open>E\<close> is the exponent of the last bit kept (53 bits, and no bit below
  \<open>2 ^ - 1074\<close>) and \<open>s\<close> the rounded significand.  A result of \<open>2 ^ 1024\<close> or more is an
  infinity.
\<close>

definition round_ratio :: "int \<Rightarrow> int \<Rightarrow> py_float" where
  "round_ratio p q =
     (if p = 0 then Finite 0 0
      else
        let E = max (binade \<bar>p\<bar> q - 52) (- 1074);
            s = round_div (\<bar>p\<bar> * 2 ^ nat (- E)) (q * 2 ^ nat E)
        in if 1025 \<le> bitlen s + E then (if 0 < p then PosInf else NegInf)
           else strip_zeros (if 0 < p then s else - s) E)"

text \<open>The binary64 number nearest to \<open>m * 2 ^ e\<close>.\<close>

definition round_dyadic :: "int \<Rightarrow> int \<Rightarrow> py_float" where
  "round_dyadic m e = round_ratio (m * 2 ^ nat e) (2 ^ nat (- e))"

text \<open>Addition, multiplication and division of binary64 numbers.\<close>

fun fadd :: "py_float \<Rightarrow> py_float \<Rightarrow> py_float" where
  "fadd (Finite m1 e1) (Finite m2 e2) =
     (let e = min e1 e2 in round_dyadic (m1 * 2 ^ nat (e1 - e) + m2 * 2 ^ nat (e2 - e)) e)"
| "fadd NaN y = NaN"
| "fadd x NaN = NaN"
| "fadd PosInf NegInf = NaN"
| "fadd NegInf PosInf = NaN"
| "fadd PosInf y = PosInf"
| "fadd NegInf y = NegInf"
| "fadd x PosInf = PosInf"
| "fadd x NegInf = NegInf"

fun fneg :: "py_float \<Rightarrow> py_float" where
  "fneg (Finite m e) = Finite (- m) e"
| "fneg PosInf = NegInf"
| "fneg NegInf = PosInf"
| "fneg NaN = NaN"

fun fsign :: "py_float \<Rightarrow> int" where
  "fsign (Finite m e) = sgn m"
| "fsign PosInf = 1"
| "fsign NegInf = - 1"
| "fsign NaN = 0"

fun fmul :: "py_float \<Rightarrow> py_float \<Rightarrow> py_float" where
  "fmul (Finite m1 e1) (Finite m2 e2) = round_dyadic (m1 * m2) (e1 + e2)"
| "fmul NaN y = NaN"
| "fmul x NaN = NaN"
| "fmul x y =
     (if fsign x * fsign y = 0 then NaN else if 0 < fsign x * fsign y then PosInf else NegInf)"

text \<open>Division by a number that is not zero; Python raises on a zero divisor first.\<close>

fun fdiv :: "py_float \<Rightarrow> py_float \<Rightarrow> py_float" where
  "fdiv (Finite m1 e1) (Finite m2 e2) =
     round_ratio (sgn m2 * m1 * 2 ^ nat (e1 - e2)) (\<bar>m2\<bar> * 2 ^ nat (e2 - e1))"
| "fdiv NaN y = NaN"
| "fdiv x NaN = NaN"
| "fdiv (Finite m e) y = Finite 0 0"
| "fdiv x (Finite m e) = (if 0 < fsign x * sgn m then PosInf else NegInf)"
| "fdiv x y = NaN"

instantiation py_float :: plus
begin

definition plus_py_float :: "py_float \<Rightarrow> py_float \<Rightarrow> py_float" where
  "plus_py_float x y = fadd x y"

instance ..

end

text \<open>
  Python's conversions and divisions.  \<open>float(i)\<close>, also where an int meets a float in an
  operation, rounds to nearest and raises OverflowError when the int is too large.
\<close>

definition py_float_of_int :: "int \<Rightarrow> py_error + py_float" where
  "py_float_of_int i =
     (case round_ratio i 1 of Finite m e \<Rightarrow> Inr (Finite m e) | _ \<Rightarrow> Inl OverflowError)"

text \<open>\<open>int(x)\<close> truncates towards zero and raises on an infinity and on a NaN.\<close>

definition float_trunc :: "int \<Rightarrow> int \<Rightarrow> int" where
  "float_trunc m e =
     (if 0 \<le> e then m * 2 ^ nat e
      else if 0 \<le> m then m div 2 ^ nat (- e)
      else - ((- m) div 2 ^ nat (- e)))"

definition py_int :: "py_float \<Rightarrow> py_error + int" where
  "py_int x =
     (case x of
        Finite m e \<Rightarrow> Inr (float_trunc m e)
      | NaN \<Rightarrow> Inl ValueError
      | _ \<Rightarrow> Inl OverflowError)"

text \<open>\<open>p / q\<close> on two ints: the correctly rounded quotient.\<close>

definition int_truediv :: "int \<Rightarrow> int \<Rightarrow> py_error + py_float" where
  "int_truediv p q =
     (if q = 0 then Inl ZeroDivisionError
      else case round_ratio (sgn q * p) \<bar>q\<bar> of
             Finite m e \<Rightarrow> Inr (Finite m e)
           | _ \<Rightarrow> Inl OverflowError)"

text \<open>\<open>x / y\<close> on two floats.\<close>

definition float_truediv :: "py_float \<Rightarrow> py_float \<Rightarrow> py_error + py_float" where
  "float_truediv x y = (if fsign y = 0 \<and> y \<noteq> NaN then Inl ZeroDivisionError else Inr (fdiv x y))"

text \<open>
  Python's slice \<open>xs[i:j]\<close>: a negative index counts from the end, and both indices are
  clamped to the range of the list.
\<close>

definition py_slice :: "'a list \<Rightarrow> int \<Rightarrow> int \<Rightarrow> 'a list" where
  "py_slice xs i j =
     (let len = int (length xs);
          lo = (if i < 0 then max (i + len) 0 else min i len);
          hi = (if j < 0 then max (j + len) 0 else min j len)
      in take (nat (hi - lo)) (drop (nat lo) xs))"

section \<open>frame_generator\<close>

text \<open>
  \<^verbatim>\<open>n = int(sample_rate * (frame_duration_ms / 1000.0) * 2)\<close>, evaluated in Python's order:
  the division first, which converts \<open>frame_duration_ms\<close>, then the product, which converts
  \<open>sample_rate\<close>, then the product with 2.
\<close>

definition frame_len :: "int \<Rightarrow> int \<Rightarrow> py_error + int" where
  "frame_len sample_rate frame_duration_ms =
     (case py_float_of_int frame_duration_ms of
        Inl err \<Rightarrow> Inl err
      | Inr fd \<Rightarrow>
          (case float_truediv fd (Finite 1000 0) of
             Inl err \<Rightarrow> Inl err
           | Inr a \<Rightarrow>
               (case py_float_of_int sample_rate of
                  Inl err \<Rightarrow> Inl err
                | Inr sr \<Rightarrow> py_int (fmul (fmul sr a) (Finite 2 0)))))"

text \<open>\<^verbatim>\<open>duration = float(n) / sample_rate / 2\<close>\<close>

definition frame_secs :: "int \<Rightarrow> int \<Rightarrow> py_error + py_float" where
  "frame_secs n sample_rate =
     (case py_float_of_int n of
        Inl err \<Rightarrow> Inl err
      | Inr nf \<Rightarrow>
          (case py_float_of_int sample_rate of
             Inl err \<Rightarrow> Inl err
           | Inr sr \<Rightarrow>
               (case float_truediv nf sr of
                  Inl err \<Rightarrow> Inl err
                | Inr q \<Rightarrow> float_truediv q (Finite 2 0))))"

text \<open>
  The \<open>while\<close> loop of \<open>frame_generator\<close>.  The frames yielded so far are accumulated in
  \<open>acc\<close>; the loop has no bound of its own, so the result is an option and \<open>None\<close> is the
  run that never leaves the loop.
\<close>

partial_function (option) frame_loop ::
  "int \<Rightarrow> py_float \<Rightarrow> bytes \<Rightarrow> int \<Rightarrow> py_float \<Rightarrow> py_float frame list \<Rightarrow>
   py_float frame list option" where
  "frame_loop n duration audio offset timestamp acc =
     (if offset + n < int (length audio)
      then frame_loop n duration audio (offset + n) (timestamp + duration)
             (acc @ [(py_slice audio offset (offset + n), timestamp, duration)])
      else Some acc)"

declare frame_loop.simps [code]

text \<open>The whole generator, materialised; \<open>timestamp\<close> starts at \<open>0.0\<close>.\<close>

definition frame_generator ::
  "int \<Rightarrow> bytes \<Rightarrow> int \<Rightarrow> (py_error + py_float frame list) option" where
  "frame_generator frame_duration_ms audio sample_rate =
     (case frame_len sample_rate frame_duration_ms of
        Inl err \<Rightarrow> Some (Inl err)
      | Inr n \<Rightarrow>
          (case frame_secs n sample_rate of
             Inl err \<Rightarrow> Some (Inl err)
           | Inr duration \<Rightarrow>
               map_option Inr (frame_loop n duration audio 0 (Finite 0 0) [])))"

text \<open>
  Frame number \<open>i\<close> of a buffer cut into frames of \<open>n\<close> bytes: bytes \<open>i * n\<close> up to
  \<open>(i + 1) * n\<close>, with the timestamp that adding the duration \<open>i\<close> times to \<open>0.0\<close> gives.
\<close>

definition nth_frame :: "int \<Rightarrow> py_float \<Rightarrow> bytes \<Rightarrow> nat \<Rightarrow> py_float frame" where
  "nth_frame n duration audio i =
     (take (nat n) (drop (i * nat n) audio), ((\<lambda>t. t + duration) ^^ i) (Finite 0 0), duration)"

section \<open>vad_collector\<close>

text \<open>
  The local variables of \<open>vad_collector\<close>.  \<open>start_time\<close> is unbound until the first trigger and
  the loop variables \<open>timestamp\<close>, \<open>duration\<close> are unbound until the first iteration: both are
  options, and reading an unbound one is the error UnboundLocalError.  \<open>yielded\<close> collects
  the segments the generator has yielded so far.
\<close>

record 't collector_state =
  ring_buffer :: "(bytes \<times> bool \<times> 't \<times> 't) list"
  triggered :: bool
  voiced_frames :: "('t \<times> 't) list"
  start_time :: "'t option"
  cur :: "('t \<times> 't) option"
  yielded :: "'t segment list"

definition init_state :: "'t collector_state" where
  "init_state = \<lparr>ring_buffer = [], triggered = False, voiced_frames = [],
                  start_time = None, cur = None, yielded = []\<rparr>"

text \<open>
  \<open>collections.deque(maxlen=m).append(x)\<close>: a full deque drops its oldest entry, and a
  deque of capacity 0 stays empty.
\<close>

definition deque_append :: "nat \<Rightarrow> 'a list \<Rightarrow> 'a \<Rightarrow> 'a list" where
  "deque_append maxlen buf x =
     (if maxlen = 0 then []
      else if length buf = maxlen then tl buf @ [x]
      else buf @ [x])"

text \<open>The entries of the ring buffer marked as speech, as (t, t + d) pairs.\<close>

definition voiced_of :: "(bytes \<times> bool \<times> 't \<times> 't) list \<Rightarrow> ('t::plus \<times> 't) list" where
  "voiced_of buf = map (\<lambda>(f, s, t, d). (t, t + d)) (filter (\<lambda>(f, s, t, d). s) buf)"

text \<open>One iteration of the \<open>for\<close> loop.  The oracle is \<open>vad.is_speech\<close>, taken as a function.\<close>

definition collector_step ::
  "nat \<Rightarrow> speech_oracle \<Rightarrow> int \<Rightarrow> 't collector_state \<Rightarrow> ('t::plus) frame \<Rightarrow>
   py_error + 't collector_state" where
  "collector_step maxlen vad sample_rate s0 fr =
     (case fr of (frame, timestamp, duration) \<Rightarrow>
        let is_speech = vad frame sample_rate;
            s = s0\<lparr>cur := Some (timestamp, duration)\<rparr>
        in if \<not> triggered s then
             let buf = deque_append maxlen (ring_buffer s) (frame, is_speech, timestamp, duration)
             in if is_speech then
                  Inr (s\<lparr>ring_buffer := [], triggered := True,
                         voiced_frames := voiced_frames s @ voiced_of buf,
                         start_time := Some timestamp\<rparr>)
                else Inr (s\<lparr>ring_buffer := buf\<rparr>)
           else if \<not> is_speech then
             (case start_time s of
                None \<Rightarrow> Inl UnboundLocalError
              | Some st \<Rightarrow>
                  Inr (s\<lparr>triggered := False, yielded := yielded s @ [(st, timestamp + duration)]\<rparr>))
           else Inr (s\<lparr>voiced_frames := voiced_frames s @ [(timestamp, timestamp + duration)]\<rparr>))"

fun collector_loop ::
  "nat \<Rightarrow> speech_oracle \<Rightarrow> int \<Rightarrow> 't collector_state \<Rightarrow> ('t::plus) frame list \<Rightarrow>
   py_error + 't collector_state" where
  "collector_loop maxlen vad sample_rate s [] = Inr s"
| "collector_loop maxlen vad sample_rate s (fr # frames) =
     (case collector_step maxlen vad sample_rate s fr of
        Inl e \<Rightarrow> Inl e
      | Inr s' \<Rightarrow> collector_loop maxlen vad sample_rate s' frames)"

text \<open>The code after the loop: \<^verbatim>\<open>if triggered: yield (start_time, timestamp + duration)\<close>.\<close>

definition collector_finish :: "('t::plus) collector_state \<Rightarrow> py_error + 't segment list" where
  "collector_finish s =
     (if triggered s then
        (case start_time s of
           None \<Rightarrow> Inl UnboundLocalError
         | Some st \<Rightarrow>
             (case cur s of
                None \<Rightarrow> Inl UnboundLocalError
              | Some (timestamp, duration) \<Rightarrow> Inr (yielded s @ [(st, timestamp + duration)])))
      else Inr (yielded s))"

text \<open>\<^verbatim>\<open>num_padding_frames = int(padding_duration_ms / frame_duration_ms)\<close>\<close>

definition num_padding_frames :: "int \<Rightarrow> int \<Rightarrow> py_error + int" where
  "num_padding_frames padding_duration_ms frame_duration_ms =
     (case int_truediv padding_duration_ms frame_duration_ms of
        Inl err \<Rightarrow> Inl err
      | Inr q \<Rightarrow> py_int q)"

text \<open>
  \<^verbatim>\<open>collections.deque(maxlen=m)\<close>: the capacity is read as a C \<open>ssize_t\<close> of 64 bits, which
  raises OverflowError outside its range, and then refused with ValueError when negative.
\<close>

definition deque_maxlen :: "int \<Rightarrow> py_error + nat" where
  "deque_maxlen m =
     (if m < - (2 ^ 63) \<or> 2 ^ 63 \<le> m then Inl OverflowError
      else if m < 0 then Inl ValueError
      else Inr (nat m))"

text \<open>The first two lines of \<open>vad_collector\<close>: the capacity of the ring buffer, or the error.\<close>

definition ring_capacity :: "int \<Rightarrow> int \<Rightarrow> py_error + nat" where
  "ring_capacity padding_duration_ms frame_duration_ms =
     (case num_padding_frames padding_duration_ms frame_duration_ms of
        Inl err \<Rightarrow> Inl err
      | Inr m \<Rightarrow> deque_maxlen m)"

text \<open>The whole collector, materialised as \<open>list(vad_collector(...))\<close>.\<close>

definition vad_collector ::
  "int \<Rightarrow> int \<Rightarrow> int \<Rightarrow> speech_oracle \<Rightarrow> ('t::plus) frame list \<Rightarrow> py_error + 't segment list" where
  "vad_collector sample_rate frame_duration_ms padding_duration_ms vad frames =
     (case ring_capacity padding_duration_ms frame_duration_ms of
        Inl err \<Rightarrow> Inl err
      | Inr maxlen \<Rightarrow>
          (case collector_loop maxlen vad sample_rate init_state frames of
             Inl e \<Rightarrow> Inl e
           | Inr s \<Rightarrow> collector_finish s))"

section \<open>Properties of frame and segment sequences\<close>

text \<open>
  A segment sequence is disjoint and ordered when every segment has its start before its
  end and every segment ends no later than the next one starts.
\<close>

fun segments_ordered :: "('t::ord) segment list \<Rightarrow> bool" where
  "segments_ordered [] = True"
| "segments_ordered [a] = (fst a < snd a)"
| "segments_ordered (a # b # rest) =
     (fst a < snd a \<and> snd a \<le> fst b \<and> segments_ordered (b # rest))"

text \<open>
  The frame sequences of sections 3 and 4.1 of the specification: every frame ends after
  it starts, and no frame starts before the end of its predecessor.  The end of a frame is
  its timestamp plus its duration, in the arithmetic of the timestamps: on floats a sum
  that rounding brings back to the timestamp is not an end after the start.
\<close>

fun frames_ordered :: "('t::{plus,ord}) frame list \<Rightarrow> bool" where
  "frames_ordered [] = True"
| "frames_ordered [(f, t, d)] = (t < t + d)"
| "frames_ordered ((f, t, d) # (f', t', d') # rest) =
     (t < t + d \<and> t + d \<le> t' \<and> frames_ordered ((f', t', d') # rest))"

text \<open>The same, with a lower bound for the start of the first frame.\<close>

fun frames_after :: "'t \<Rightarrow> ('t::{plus,ord}) frame list \<Rightarrow> bool" where
  "frames_after lo [] = True"
| "frames_after lo ((f, t, d) # rest) = (lo \<le> t \<and> t < t + d \<and> frames_after (t + d) rest)"

text \<open>
  The invariant of the collector's loop on such a frame sequence; \<open>lo\<close> is the end of the
  last frame consumed.
\<close>

definition collector_inv :: "'t \<Rightarrow> ('t::{plus,ord}) collector_state \<Rightarrow> bool" where
  "collector_inv lo s =
     (segments_ordered (yielded s) \<and> (\<forall>g\<in>set (yielded s). snd g \<le> lo) \<and>
      (triggered s \<longrightarrow>
         (\<exists>st t d. start_time s = Some st \<and> cur s = Some (t, d) \<and> lo = t + d \<and> st < lo \<and>
            (\<forall>g\<in>set (yielded s). snd g \<le> st))))"

text \<open>
  Two states agree when they differ at most in the ring buffer and in \<open>voiced_frames\<close>.
\<close>

definition agree :: "'t collector_state \<Rightarrow> 't collector_state \<Rightarrow> bool" where
  "agree a b =
     (triggered a = triggered b \<and> start_time a = start_time b \<and> cur a = cur b \<and>
      yielded a = yielded b)"

text \<open>Timestamp and end of a frame.\<close>

definition frame_start :: "'t frame \<Rightarrow> 't" where
  "frame_start fr = fst (snd fr)"

definition frame_end :: "('t::plus) frame \<Rightarrow> 't" where
  "frame_end fr = fst (snd fr) + snd (snd fr)"

text \<open>The widths of the gaps between consecutive segments.\<close>

fun segment_gaps :: "('t::minus) segment list \<Rightarrow> 't list" where
  "segment_gaps (a # b # rest) = (fst b - snd a) # segment_gaps (b # rest)"
| "segment_gaps _ = []"

section \<open>Test data\<close>

text \<open>An oracle for the examples: a frame is speech when some sample byte is not zero.\<close>

definition loud :: speech_oracle where
  "loud frame sample_rate = (0 < sum_list (map unat frame))"

text \<open>
  The synthetic sequence of section 8: ten contiguous frames of one second each, frames 0
  to 4 and 6 to 9 loud, frame 5 silent.
\<close>

definition synthetic_frames :: "real frame list" where
  "synthetic_frames =
     [([1], 0, 1), ([1], 1, 1), ([1], 2, 1), ([1], 3, 1), ([1], 4, 1),
      ([0], 5, 1),
      ([1], 6, 1), ([1], 7, 1), ([1], 8, 1), ([1], 9, 1)]"

definition silent_frames :: "real frame list" where
  "silent_frames = [([0], 0, 1), ([0], 1, 1), ([0], 2, 1)]"

definition speech_frames :: "real frame list" where
  "speech_frames = [([1], 0, 1), ([1], 1, 1), ([1], 2, 1)]"

text \<open>
  Sample buffers of 58, 56 and 813 bytes.  At 100 samples per second Python computes a frame
  of 145 ms as \<open>int(100 * (145 / 1000.0) * 2) = int(28.999999999999996) = 28\<close> bytes.
\<close>

definition audio58 :: bytes where
  "audio58 = map of_nat [0..<58]"

definition audio56 :: bytes where
  "audio56 = map of_nat [0..<56]"

definition audio813 :: bytes where
  "audio813 = map of_nat [0..<813]"

text \<open>An untriggered state whose ring buffer still holds an entry marked as speech.\<close>

definition buffered_state :: "real collector_state" where
  "buffered_state = \<lparr>ring_buffer = [([1], True, 0, 1), ([0], False, 1, 1)], triggered = False,
                      voiced_frames = [], start_time = None, cur = Some (1, 1), yielded = []\<rparr>"

section \<open>Rounding\<close>

lemma float_absorption: "Finite 1 53 + Finite 1 0 = Finite 1 53"
  by code_simp

lemma strip_zeros_trunc:
  "0 \<le> m \<Longrightarrow> \<exists>m' e'. strip_zeros m e = Finite m' e' \<and> float_trunc m' e' = float_trunc m e"
proof (induction m e rule: strip_zeros.induct)
  case (1 m e)
  show ?case
  proof (cases "m = 0")
    case True
    then show ?thesis
      by (subst strip_zeros.simps) (simp add: float_trunc_def)
  next
    case nz: False
    show ?thesis
    proof (cases "even m")
      case False
      with nz show ?thesis
        by (subst strip_zeros.simps) simp
    next
      case True
      with 1 nz obtain m' e' where ih: "strip_zeros (m div 2) (e + 1) = Finite m' e'"
        "float_trunc m' e' = float_trunc (m div 2) (e + 1)"
        by (auto simp: pos_imp_zdiv_nonneg_iff)
      have "float_trunc (m div 2) (e + 1) = float_trunc m e"
      proof (cases "0 \<le> e")
        case True
        then have "nat (e + 1) = Suc (nat e)" by simp
        with True \<open>even m\<close> show ?thesis
          by (simp add: float_trunc_def)
      next
        case False
        then have k: "nat (- e) = Suc (nat (- (e + 1)))" by simp
        have "0 \<le> m div 2" using 1(2) by (simp add: pos_imp_zdiv_nonneg_iff)
        with False 1(2) show ?thesis
          by (cases "e + 1 = 0") (simp_all add: float_trunc_def k zdiv_zmult2_eq)
      qed
      with ih nz True show ?thesis
        by (subst strip_zeros.simps) simp
    qed
  qed
qed

lemma bitlen_le:
  assumes "0 \<le> s" and "s < 2 ^ w"
  shows "bitlen s \<le> int w"
proof -
  have "nat s < 2 ^ w"
    using assms by (simp add: nat_less_iff)
  then have "floorlog 2 (nat s) \<le> w"
    by (simp add: floorlog_le_iff)
  then show ?thesis
    by (simp add: bitlen_def)
qed

lemma binade_le: "binade a q \<le> bitlen a - bitlen q"
  by (simp add: binade_def Let_def)

lemma round_div_bounds:
  "num div den \<le> round_div num den \<and> round_div num den \<le> num div den + 1"
  by (simp add: round_div_def Let_def)

lemma round_ratio_bounded:
  assumes "0 < p" and "0 < q" and "p < 2 ^ 61 * q"
  shows "\<exists>m e. round_ratio p q = Finite m e \<and> 0 \<le> float_trunc m e \<and> float_trunc m e < 2 ^ 63"
proof -
  define E where "E = max (binade p q - 52) (- 1074)"
  define num where "num = p * 2 ^ nat (- E)"
  define den where "den = q * 2 ^ nat E"
  define f where "f = num div den"
  define s where "s = round_div num den"
  have rr: "round_ratio p q = (if 1025 \<le> bitlen s + E then PosInf else strip_zeros s E)"
    using assms(1)
    by (simp add: round_ratio_def Let_def s_def den_def num_def E_def)
  have bp: "2 ^ nat (bitlen p - 1) \<le> p" and bq: "q < 2 ^ nat (bitlen q)"
    using bitlen_bounds [OF assms(1)] bitlen_bounds [OF assms(2)] by auto
  have "(2::int) ^ 61 * q < 2 ^ 61 * 2 ^ nat (bitlen q)"
    using bq by (intro mult_strict_left_mono) simp_all
  with assms(3) have "p < 2 ^ 61 * 2 ^ nat (bitlen q)"
    by (rule less_trans)
  with bp have "(2::int) ^ nat (bitlen p - 1) < 2 ^ 61 * 2 ^ nat (bitlen q)"
    by (rule le_less_trans)
  then have "(2::int) ^ nat (bitlen p - 1) < 2 ^ (61 + nat (bitlen q))"
    by (simp only: power_add)
  then have "nat (bitlen p - 1) < 61 + nat (bitlen q)"
    by (simp only: power_strict_increasing_iff one_less_numeral_iff semiring_norm)
  then have "bitlen p - bitlen q \<le> 61"
    using bitlen_nonneg [of q] by linarith
  with binade_le [of p q] have E9: "E \<le> 9"
    by (simp add: E_def)
  have den_pos: "0 < den"
    using assms(2) by (simp add: den_def)
  have num_nonneg: "0 \<le> num"
    using assms(1) by (simp add: num_def)
  have f_nonneg: "0 \<le> f"
    using den_pos num_nonneg by (simp add: f_def pos_imp_zdiv_nonneg_iff)
  have "f * den + num mod den = num"
    by (simp add: f_def)
  moreover have "0 \<le> num mod den"
    using den_pos by simp
  ultimately have f_den: "f * den \<le> num"
    by linarith
  have s_bounds: "f \<le> s" "s \<le> f + 1"
    using round_div_bounds [of num den] by (simp_all add: s_def f_def)
  have s_nonneg: "0 \<le> s"
    using f_nonneg s_bounds by simp
  have fin: "bitlen s + E < 1025 \<and> 0 \<le> float_trunc s E \<and> float_trunc s E < 2 ^ 63"
  proof (cases "0 \<le> E")
    case True
    then have num: "num = p" and den: "den = q * 2 ^ nat E"
      by (simp_all add: num_def den_def)
    have "f * 2 ^ nat E * q = f * den"
      by (simp add: den ac_simps)
    with f_den have "f * 2 ^ nat E * q \<le> p"
      by (simp only: num)
    from this assms(3) have "f * 2 ^ nat E * q < 2 ^ 61 * q"
      by (rule le_less_trans)
    then have fE: "f * 2 ^ nat E < 2 ^ 61"
      using assms(2) by (simp only: mult_less_cancel_right_pos)
    have "nat E \<le> 9" using E9 by simp
    then have pw: "(2::int) ^ nat E \<le> 2 ^ 9"
      by (intro power_increasing) simp_all
    have "s * 2 ^ nat E \<le> (f + 1) * 2 ^ nat E"
      using s_bounds(2) by (intro mult_right_mono) simp_all
    then have "s * 2 ^ nat E \<le> f * 2 ^ nat E + 2 ^ nat E"
      by (simp add: algebra_simps)
    with fE pw have sE: "s * 2 ^ nat E < 2 ^ 62"
      by simp
    have "s * 1 \<le> s * 2 ^ nat E"
      using s_nonneg by (intro mult_left_mono) simp_all
    with sE have "s < 2 ^ 62" by simp
    from bitlen_le [OF s_nonneg this] have "bitlen s \<le> 62"
      by simp
    moreover have "float_trunc s E = s * 2 ^ nat E"
      using True by (simp add: float_trunc_def)
    moreover have "0 \<le> s * 2 ^ nat E"
      using s_nonneg by simp
    ultimately show ?thesis
      using E9 sE by simp
  next
    case False
    define k where "k = nat (- E)"
    from False have Ek: "E = - int k" and num: "num = p * 2 ^ k" and den: "den = q"
      by (simp_all add: k_def num_def den_def)
    have "f * q \<le> p * 2 ^ k"
      using f_den by (simp add: num den)
    moreover have "p * 2 ^ k < (2 ^ 61 * q) * 2 ^ k"
      using assms(3) by (intro mult_strict_right_mono) simp_all
    ultimately have "f * q < (2 ^ 61 * q) * 2 ^ k"
      by (rule le_less_trans)
    moreover have "((2::int) ^ 61 * q) * 2 ^ k = (2 ^ 61 * 2 ^ k) * q"
      by (simp add: ac_simps)
    ultimately have "f * q < (2 ^ 61 * 2 ^ k) * q"
      by (simp only:)
    then have "f < 2 ^ 61 * 2 ^ k"
      using assms(2) by (simp only: mult_less_cancel_right_pos)
    with s_bounds(2) have s_le: "s \<le> 2 ^ 61 * 2 ^ k"
      by simp
    have "s div 2 ^ k \<le> (2 ^ 61 * 2 ^ k) div 2 ^ k"
      using s_le by (intro zdiv_mono1) simp_all
    then have tr: "s div 2 ^ k \<le> 2 ^ 61"
      by simp
    have tr0: "0 \<le> s div 2 ^ k"
      using s_nonneg by (simp add: pos_imp_zdiv_nonneg_iff)
    have "(2::int) ^ 61 * 2 ^ k < 2 ^ 62 * 2 ^ k"
      by (intro mult_strict_right_mono) simp_all
    with s_le have "s < 2 ^ 62 * 2 ^ k"
      by (rule le_less_trans)
    then have "s < 2 ^ (62 + k)"
      by (simp only: power_add)
    from bitlen_le [OF s_nonneg this] have bl: "bitlen s \<le> 62 + int k"
      by simp
    have "float_trunc s E = s div 2 ^ k"
      using False s_nonneg by (simp add: float_trunc_def k_def)
    with bl Ek tr tr0 show ?thesis
      by simp
  qed
  from strip_zeros_trunc [OF s_nonneg, of E]
  obtain m' e' where "strip_zeros s E = Finite m' e'" "float_trunc m' e' = float_trunc s E"
    by blast
  with rr fin show ?thesis by simp
qed

lemma strip_zeros_nonzero:
  "m \<noteq> 0 \<Longrightarrow> \<exists>m' e'. strip_zeros m e = Finite m' e' \<and> m' \<noteq> 0"
proof (induction m e rule: strip_zeros.induct)
  case (1 m e)
  show ?case
  proof (cases "even m")
    case False
    with 1(2) show ?thesis
      by (subst strip_zeros.simps) simp
  next
    case True
    with 1(2) have "m div 2 \<noteq> 0"
      by (auto elim: evenE)
    with 1 True obtain m' e' where "strip_zeros (m div 2) (e + 1) = Finite m' e'" "m' \<noteq> 0"
      by blast
    with 1(2) True show ?thesis
      by (subst strip_zeros.simps) simp
  qed
qed

lemma round_div_pos:
  assumes "0 < den" and "den \<le> num"
  shows "0 < round_div num den"
proof -
  have "0 < num div den"
    using assms by (simp only: pos_imp_zdiv_pos_iff)
  with round_div_bounds [of num den] show ?thesis
    by linarith
qed

lemma py_float_of_int_nonzero:
  assumes "i \<noteq> 0" and "py_float_of_int i = Inr (Finite m e)"
  shows "m \<noteq> 0"
proof -
  define p where "p = \<bar>i\<bar>"
  define E where "E = max (binade p 1 - 52) (- 1074)"
  define s where "s = round_div (p * 2 ^ nat (- E)) (1 * 2 ^ nat E)"
  have p_pos: "0 < p"
    using assms(1) by (simp add: p_def)
  have rr: "round_ratio i 1 =
      (if 1025 \<le> bitlen s + E then (if 0 < i then PosInf else NegInf)
       else strip_zeros (if 0 < i then s else - s) E)"
    using assms(1) by (simp add: round_ratio_def Let_def s_def E_def p_def)
  have "2 ^ nat E \<le> p * 2 ^ nat (- E)"
  proof (cases "0 \<le> E")
    case True
    have "bitlen 1 = 1"
      by (simp add: bitlen_alt_def)
    with binade_le [of p 1] have "binade p 1 \<le> bitlen p - 1"
      by simp
    with True have "nat E \<le> nat (bitlen p - 1)"
      by (simp add: E_def)
    then have "(2::int) ^ nat E \<le> 2 ^ nat (bitlen p - 1)"
      by (intro power_increasing) simp_all
    also have "\<dots> \<le> p"
      using bitlen_bounds [OF p_pos] by simp
    finally show ?thesis
      using True by simp
  next
    case False
    then have "(2::int) ^ nat E = 1" by simp
    moreover have "1 * 1 \<le> p * 2 ^ nat (- E)"
      using p_pos by (intro mult_mono) simp_all
    ultimately show ?thesis by simp
  qed
  then have "0 < s"
    unfolding s_def by (intro round_div_pos) simp_all
  then have nz: "(if 0 < i then s else - s) \<noteq> 0"
    by simp
  from strip_zeros_nonzero [OF nz, of E]
  obtain m' e' where "strip_zeros (if 0 < i then s else - s) E = Finite m' e'" "m' \<noteq> 0"
    by blast
  with rr assms(2) show ?thesis
    by (auto simp: py_float_of_int_def split: if_splits)
qed

section \<open>Configurations\<close>

lemma ring_capacity_eval:
  "num_padding_frames pd fd = Inr m \<Longrightarrow> 0 \<le> m \<Longrightarrow> m < 2 ^ 63 \<Longrightarrow>
   ring_capacity pd fd = Inr (nat m)"
  by (simp add: ring_capacity_def deque_maxlen_def)

lemma ring_capacity_negative:
  "num_padding_frames pd fd = Inr m \<Longrightarrow> - (2 ^ 63) \<le> m \<Longrightarrow> m < 0 \<Longrightarrow>
   ring_capacity pd fd = Inl ValueError"
  by (simp add: ring_capacity_def deque_maxlen_def)

lemma num_padding_frames_300_30: "num_padding_frames 300 30 = Inr 10"
  by code_simp

lemma num_padding_frames_300_neg: "num_padding_frames 300 (- 30) = Inr (- 10)"
  by code_simp

lemma ring_capacity_300_30: "ring_capacity 300 30 = Inr 10"
  using ring_capacity_eval [OF num_padding_frames_300_30] by simp

lemma ring_capacity_300_neg: "ring_capacity 300 (- 30) = Inl ValueError"
  using ring_capacity_negative [OF num_padding_frames_300_neg] by simp

lemma round_ratio_zero: "round_ratio 0 q = Finite 0 0"
  by (simp add: round_ratio_def)

lemma ring_capacity_zero_padding:
  assumes "fd \<noteq> 0"
  shows "ring_capacity 0 fd = Inr 0"
  using assms
  by (simp add: ring_capacity_def num_padding_frames_def int_truediv_def round_ratio_zero
      py_int_def float_trunc_def deque_maxlen_def)

lemma ring_capacity_zero_duration: "ring_capacity pd 0 = Inl ZeroDivisionError"
  by (simp add: ring_capacity_def num_padding_frames_def int_truediv_def)

lemma vad_collector_accepted:
  "ring_capacity pd fd = Inr maxlen \<Longrightarrow>
   vad_collector sr fd pd vad frames =
     (case collector_loop maxlen vad sr init_state frames of
        Inl e \<Rightarrow> Inl e | Inr s \<Rightarrow> collector_finish s)"
  by (simp add: vad_collector_def)

text \<open>
  Every configuration with a positive frame duration and a padding that is not negative
  and less than \<open>2 ^ 61\<close> frame durations builds its ring buffer.
\<close>

lemma ring_capacity_well_formed:
  assumes "0 < fd" and "0 \<le> pd" and "pd < 2 ^ 61 * fd"
  shows "\<exists>maxlen. ring_capacity pd fd = Inr maxlen"
proof (cases "pd = 0")
  case True
  with assms(1) ring_capacity_zero_padding [of fd] show ?thesis by simp
next
  case False
  with assms(2) have "0 < pd" by simp
  from round_ratio_bounded [OF this assms(1,3)]
  obtain m e where me: "round_ratio pd fd = Finite m e" "0 \<le> float_trunc m e"
    "float_trunc m e < 2 ^ 63"
    by blast
  have "num_padding_frames pd fd = Inr (float_trunc m e)"
    using assms(1) me(1) by (simp add: num_padding_frames_def int_truediv_def py_int_def)
  from ring_capacity_eval [OF this me(2,3)] show ?thesis by blast
qed

section \<open>The collector's loop\<close>

lemma collector_step_obs:
  "triggered s \<longrightarrow> start_time s \<noteq> None \<Longrightarrow>
   \<exists>s'. collector_step m vad sr s (f, t, d) = Inr s'
      \<and> cur s' = Some (t, d)
      \<and> triggered s' = vad f sr
      \<and> yielded s' = (if triggered s \<and> \<not> vad f sr then yielded s @ [(the (start_time s), t + d)] else yielded s)
      \<and> start_time s' = (if \<not> triggered s \<and> vad f sr then Some t else start_time s)"
  by (cases "start_time s") (auto simp: collector_step_def Let_def)

lemma collector_loop_append:
  "collector_loop m vad sr s (xs @ ys) =
     (case collector_loop m vad sr s xs of
        Inl e \<Rightarrow> Inl e | Inr s' \<Rightarrow> collector_loop m vad sr s' ys)"
  by (induction xs arbitrary: s) (auto split: sum.splits)

lemma collector_loop_total:
  "triggered s \<longrightarrow> start_time s \<noteq> None \<Longrightarrow>
   \<exists>s'. collector_loop m vad sr s fs = Inr s'
      \<and> (triggered s' \<longrightarrow> start_time s' \<noteq> None)
      \<and> (fs \<noteq> [] \<longrightarrow> cur s' = Some (snd (last fs)) \<and> triggered s' = vad (fst (last fs)) sr)"
proof (induction fs arbitrary: s)
  case Nil
  then show ?case by simp
next
  case (Cons fr fs)
  obtain f t d where fr: "fr = (f, t, d)" by (cases fr)
  from collector_step_obs [OF Cons.prems, of m vad sr f t d]
  obtain s1 where s1: "collector_step m vad sr s (f, t, d) = Inr s1"
    "cur s1 = Some (t, d)" "triggered s1 = vad f sr"
    "start_time s1 = (if \<not> triggered s \<and> vad f sr then Some t else start_time s)"
    by blast
  have b1: "triggered s1 \<longrightarrow> start_time s1 \<noteq> None"
    using s1 Cons.prems by auto
  from Cons.IH [OF b1] obtain s' where s': "collector_loop m vad sr s1 fs = Inr s'"
    "triggered s' \<longrightarrow> start_time s' \<noteq> None"
    "fs \<noteq> [] \<longrightarrow> cur s' = Some (snd (last fs)) \<and> triggered s' = vad (fst (last fs)) sr"
    by blast
  show ?case
  proof (cases "fs = []")
    case True
    with s1 b1 fr show ?thesis by simp
  next
    case False
    with s1 s' fr show ?thesis by simp
  qed
qed

lemma collector_loop_silence:
  "\<not> triggered s \<Longrightarrow> \<forall>x\<in>set fs. \<not> vad (fst x) sr \<Longrightarrow>
   \<exists>s'. collector_loop m vad sr s fs = Inr s' \<and> \<not> triggered s'
      \<and> yielded s' = yielded s \<and> start_time s' = start_time s"
proof (induction fs arbitrary: s)
  case Nil
  then show ?case by simp
next
  case (Cons fr fs)
  obtain f t d where fr: "fr = (f, t, d)" by (cases fr)
  have b: "triggered s \<longrightarrow> start_time s \<noteq> None" using Cons.prems by simp
  from collector_step_obs [OF b, of m vad sr f t d] Cons.prems fr
  obtain s1 where s1: "collector_step m vad sr s (f, t, d) = Inr s1"
    "\<not> triggered s1" "yielded s1 = yielded s" "start_time s1 = start_time s"
    by auto
  from Cons.IH [OF s1(2)] Cons.prems(2) s1 fr show ?case by auto
qed

lemma collector_loop_speech:
  "triggered s \<Longrightarrow> start_time s = Some st \<Longrightarrow> \<forall>x\<in>set fs. vad (fst x) sr \<Longrightarrow>
   \<exists>s'. collector_loop m vad sr s fs = Inr s' \<and> triggered s'
      \<and> yielded s' = yielded s \<and> start_time s' = Some st
      \<and> cur s' = (if fs = [] then cur s else Some (snd (last fs)))"
proof (induction fs arbitrary: s)
  case Nil
  then show ?case by simp
next
  case (Cons fr fs)
  obtain f t d where fr: "fr = (f, t, d)" by (cases fr)
  have b: "triggered s \<longrightarrow> start_time s \<noteq> None" using Cons.prems by simp
  from collector_step_obs [OF b, of m vad sr f t d] Cons.prems fr
  obtain s1 where s1: "collector_step m vad sr s (f, t, d) = Inr s1"
    "triggered s1" "yielded s1 = yielded s" "start_time s1 = Some st" "cur s1 = Some (t, d)"
    by auto
  from Cons.IH [OF s1(2) s1(4)] Cons.prems(3) s1 fr show ?case by auto
qed

lemma collector_trigger:
  "\<not> triggered s \<Longrightarrow> vad f sr \<Longrightarrow>
   \<exists>s'. collector_step m vad sr s (f, t, d) = Inr s' \<and> triggered s'
      \<and> yielded s' = yielded s \<and> start_time s' = Some t \<and> cur s' = Some (t, d)"
  using collector_step_obs [of s m vad sr f t d] by auto

lemma collector_close:
  "triggered s \<Longrightarrow> start_time s = Some st \<Longrightarrow> \<not> vad g sr \<Longrightarrow>
   \<exists>s'. collector_step m vad sr s (g, t, d) = Inr s' \<and> \<not> triggered s'
      \<and> yielded s' = yielded s @ [(st, t + d)] \<and> cur s' = Some (t, d)"
  using collector_step_obs [of s m vad sr g t d] by auto

lemma collector_run_open:
  assumes "\<not> triggered s" "vad f sr" "\<forall>x\<in>set mid. vad (fst x) sr"
  shows "\<exists>s'. collector_loop m vad sr s ((f, t, d) # mid) = Inr s' \<and> triggered s'
      \<and> yielded s' = yielded s \<and> start_time s' = Some t
      \<and> cur s' = Some (snd (last ((f, t, d) # mid)))"
proof -
  from collector_trigger [of s vad f sr m t d] assms(1,2)
  obtain s1 where s1: "collector_step m vad sr s (f, t, d) = Inr s1" "triggered s1"
    "yielded s1 = yielded s" "start_time s1 = Some t" "cur s1 = Some (t, d)" by blast
  from collector_loop_speech [of s1 t mid vad sr m] assms(3) s1 show ?thesis by auto
qed

lemma collector_run_closed:
  assumes "\<not> triggered s" "vad f sr" "\<forall>x\<in>set mid. vad (fst x) sr" "\<not> vad g sr"
  shows "\<exists>s'. collector_loop m vad sr s ((f, t, d) # mid @ [(g, tg, dg)]) = Inr s'
      \<and> \<not> triggered s' \<and> yielded s' = yielded s @ [(t, tg + dg)]"
proof -
  from collector_run_open [of s vad f sr mid m t d] assms(1-3)
  obtain s1 where s1: "collector_loop m vad sr s ((f, t, d) # mid) = Inr s1" "triggered s1"
    "yielded s1 = yielded s" "start_time s1 = Some t" by blast
  from collector_close [of s1 t vad g sr m tg dg] s1(2,4) assms(4)
  obtain s2 where s2: "collector_step m vad sr s1 (g, tg, dg) = Inr s2" "\<not> triggered s2"
    "yielded s2 = yielded s1 @ [(t, tg + dg)]" by blast
  have "collector_loop m vad sr s (((f, t, d) # mid) @ [(g, tg, dg)]) = Inr s2"
    unfolding collector_loop_append using s1 s2 by simp
  with s2 s1 show ?thesis by simp
qed

lemma collector_loop_init:
  "\<exists>s'. collector_loop m vad sr init_state fs = Inr s'
      \<and> (triggered s' \<longrightarrow> start_time s' \<noteq> None)
      \<and> (fs \<noteq> [] \<longrightarrow> cur s' = Some (snd (last fs)) \<and> triggered s' = vad (fst (last fs)) sr)
      \<and> (fs = [] \<longrightarrow> s' = init_state)"
proof (cases "fs = []")
  case True
  then show ?thesis by (simp add: init_state_def)
next
  case False
  have "triggered (init_state :: 'a collector_state) \<longrightarrow>
      start_time (init_state :: 'a collector_state) \<noteq> None"
    by (simp add: init_state_def)
  from collector_loop_total [OF this, of m vad sr fs] False show ?thesis by auto
qed

lemma collector_run_returns:
  "\<exists>segs. (case collector_loop m vad sr init_state frames of
              Inl e \<Rightarrow> Inl e | Inr s \<Rightarrow> collector_finish s) = Inr segs"
proof -
  from collector_loop_init [of m vad sr frames]
  obtain s' where s': "collector_loop m vad sr init_state frames = Inr s'"
    "triggered s' \<longrightarrow> start_time s' \<noteq> None"
    "frames \<noteq> [] \<longrightarrow> cur s' = Some (snd (last frames))"
    "frames = [] \<longrightarrow> s' = init_state"
    by blast
  have "\<exists>segs. collector_finish s' = Inr segs"
  proof (cases "triggered s'")
    case False
    then show ?thesis by (simp add: collector_finish_def)
  next
    case True
    with s'(4) have "frames \<noteq> []" by (auto simp: init_state_def)
    with s'(3) obtain t d where "cur s' = Some (t, d)"
      by (cases "snd (last frames)") auto
    moreover from True s'(2) obtain st where "start_time s' = Some st" by auto
    ultimately show ?thesis using True by (simp add: collector_finish_def)
  qed
  with s'(1) show ?thesis by simp
qed

section \<open>Empty and silent input\<close>

text \<open>
  C6: in every configuration with which the collector builds its ring buffer, it yields no
  segment when the frame sequence is empty and when the oracle finds no speech in any
  frame.  The ring buffer is built when \<open>frame_duration_ms\<close> is not 0 and
  \<open>int(padding_duration_ms / frame_duration_ms)\<close> is at least 0 and less than \<open>2 ^ 63\<close>,
  in particular in every configuration with \<open>0 < frame_duration_ms\<close> and
  \<open>0 \<le> padding_duration_ms < 2 ^ 61 * frame_duration_ms\<close>; in any other configuration the
  collector raises before it reads a frame.
\<close>

theorem C6_no_speech_no_segments:
  assumes "ring_capacity padding_duration_ms frame_duration_ms = Inr maxlen"
    and "frames = [] \<or> (\<forall>fr\<in>set frames. \<not> vad (fst fr) sample_rate)"
  shows "vad_collector sample_rate frame_duration_ms padding_duration_ms vad frames = Inr []"
proof -
  have quiet: "\<forall>fr\<in>set frames. \<not> vad (fst fr) sample_rate"
    using assms(2) by auto
  have "\<not> triggered (init_state :: 'a collector_state)"
    by (simp add: init_state_def)
  with collector_loop_silence [of init_state frames vad sample_rate maxlen] quiet
  obtain s' where "collector_loop maxlen vad sample_rate init_state frames = Inr s'"
    "\<not> triggered s'" "yielded s' = yielded (init_state :: 'a collector_state)"
    by blast
  then show ?thesis
    by (simp add: vad_collector_accepted [OF assms(1)] collector_finish_def init_state_def)
qed

theorem C6_witness:
  "ring_capacity 300 30 = Inr 10
   \<and> vad_collector 16000 30 300 loud ([] :: real frame list) = Inr []
   \<and> vad_collector 16000 30 300 loud silent_frames = Inr []"
  using C6_no_speech_no_segments [of 300 30 10 "[] :: real frame list" loud 16000]
    C6_no_speech_no_segments [of 300 30 10 silent_frames loud 16000]
  by (simp add: ring_capacity_300_30 silent_frames_def loud_def)

section \<open>The final segment\<close>

text \<open>
  C2: in every configuration with which the collector builds its ring buffer, when the loop
  ends in the triggered state the collector yields, after the segments yielded in the loop,
  exactly one more segment, from the recorded start time to the end of the last frame.  When
  the oracle finds speech in every frame of a non-empty sequence, the collector yields
  exactly one segment, from the timestamp of the first frame to the end of the last frame.
\<close>

theorem C2_final_segment:
  assumes "ring_capacity padding_duration_ms frame_duration_ms = Inr maxlen"
  shows "(\<forall>s. collector_loop maxlen vad sample_rate init_state frames = Inr s \<and> triggered s \<longrightarrow>
              (\<exists>st. start_time s = Some st \<and> frames \<noteq> [] \<and>
                 vad_collector sample_rate frame_duration_ms padding_duration_ms vad frames =
                   Inr (yielded s @ [(st, frame_end (last frames))])))
       \<and> (frames \<noteq> [] \<and> (\<forall>fr\<in>set frames. vad (fst fr) sample_rate) \<longrightarrow>
            vad_collector sample_rate frame_duration_ms padding_duration_ms vad frames =
              Inr [(frame_start (hd frames), frame_end (last frames))])"
proof (intro conjI allI impI)
  fix s
  assume run: "collector_loop maxlen vad sample_rate init_state frames = Inr s \<and> triggered s"
  from collector_loop_init [of maxlen vad sample_rate frames] run
  have bound: "start_time s \<noteq> None"
    and last: "frames \<noteq> [] \<longrightarrow> cur s = Some (snd (last frames))"
    and emp: "frames = [] \<longrightarrow> s = init_state"
    by auto
  from emp run have ne: "frames \<noteq> []"
    by (auto simp: init_state_def)
  from bound obtain st where st: "start_time s = Some st"
    by auto
  obtain t d where td: "snd (last frames) = (t, d)"
    by (cases "snd (last frames)")
  have "collector_finish s = Inr (yielded s @ [(st, frame_end (last frames))])"
    using run st last ne td by (simp add: collector_finish_def frame_end_def)
  with run st ne
  show "\<exists>st. start_time s = Some st \<and> frames \<noteq> [] \<and>
          vad_collector sample_rate frame_duration_ms padding_duration_ms vad frames =
            Inr (yielded s @ [(st, frame_end (last frames))])"
    by (simp add: vad_collector_accepted [OF assms])
next
  assume all: "frames \<noteq> [] \<and> (\<forall>fr\<in>set frames. vad (fst fr) sample_rate)"
  then obtain f t d rest where fr: "frames = (f, t, d) # rest"
    by (cases frames) auto
  have "\<not> triggered (init_state :: 'a collector_state)"
    by (simp add: init_state_def)
  with collector_run_open [of init_state vad f sample_rate rest maxlen t d] all fr
  obtain s' where s': "collector_loop maxlen vad sample_rate init_state frames = Inr s'"
    "triggered s'" "yielded s' = yielded (init_state :: 'a collector_state)"
    "start_time s' = Some t" "cur s' = Some (snd (last frames))"
    by auto
  obtain tl dl where td: "snd (last frames) = (tl, dl)"
    by (cases "snd (last frames)")
  have "collector_finish s' = Inr [(t, frame_end (last frames))]"
    using s' td by (simp add: collector_finish_def frame_end_def init_state_def)
  with s' fr
  show "vad_collector sample_rate frame_duration_ms padding_duration_ms vad frames =
          Inr [(frame_start (hd frames), frame_end (last frames))]"
    by (simp add: vad_collector_accepted [OF assms] frame_start_def)
qed

theorem C2_witness:
  "ring_capacity 300 30 = Inr 10
   \<and> collector_loop 10 loud 16000 init_state synthetic_frames =
       Inr \<lparr>ring_buffer = [], triggered = True,
             voiced_frames = [(0, 1), (1, 2), (2, 3), (3, 4), (4, 5), (6, 7), (7, 8), (8, 9), (9, 10)],
             start_time = Some 6, cur = Some (9, 1), yielded = [(0, 6)]\<rparr>
   \<and> vad_collector 16000 30 300 loud synthetic_frames = Inr ([(0, 6)] @ [(6, 10)])
   \<and> vad_collector 16000 30 300 loud speech_frames = Inr [(0, 3)]"
  using C2_final_segment [of 300 30 10 loud 16000 synthetic_frames]
    C2_final_segment [of 300 30 10 loud 16000 speech_frames]
  by (simp add: ring_capacity_300_30 synthetic_frames_def speech_frames_def loud_def
      collector_step_def init_state_def deque_append_def voiced_of_def
      frame_start_def frame_end_def)

section \<open>The start of a segment\<close>

text \<open>
  C4: in any untriggered state, whatever its ring buffer holds, a speech frame triggers the
  collector and records that frame's own timestamp as the start time.  The segment of the
  run that begins there starts at that timestamp, both when a non-speech frame closes the
  run and when the input ends during the run.
\<close>

theorem C4_start_is_trigger_timestamp:
  assumes "\<not> triggered s" and "vad f sample_rate"
    and "\<forall>fr\<in>set mid. vad (fst fr) sample_rate"
  shows "(\<exists>s1. collector_step maxlen vad sample_rate s (f, t, d) = Inr s1 \<and> triggered s1 \<and>
            start_time s1 = Some t)
       \<and> (\<not> vad g sample_rate \<longrightarrow>
            (\<exists>s2. collector_loop maxlen vad sample_rate s ((f, t, d) # mid @ [(g, tg, dg)]) = Inr s2 \<and>
               yielded s2 = yielded s @ [(t, tg + dg)]))
       \<and> (\<exists>s3. collector_loop maxlen vad sample_rate s ((f, t, d) # mid) = Inr s3 \<and>
            collector_finish s3 = Inr (yielded s @ [(t, frame_end (last ((f, t, d) # mid)))]))"
proof (intro conjI impI)
  from collector_trigger [of s vad f sample_rate maxlen t d] assms(1,2)
  show "\<exists>s1. collector_step maxlen vad sample_rate s (f, t, d) = Inr s1 \<and> triggered s1 \<and>
          start_time s1 = Some t"
    by blast
next
  assume "\<not> vad g sample_rate"
  with collector_run_closed [of s vad f sample_rate mid g maxlen t d tg dg] assms
  show "\<exists>s2. collector_loop maxlen vad sample_rate s ((f, t, d) # mid @ [(g, tg, dg)]) = Inr s2 \<and>
          yielded s2 = yielded s @ [(t, tg + dg)]"
    by blast
next
  from collector_run_open [of s vad f sample_rate mid maxlen t d] assms
  obtain s3 where s3: "collector_loop maxlen vad sample_rate s ((f, t, d) # mid) = Inr s3"
    "triggered s3" "yielded s3 = yielded s" "start_time s3 = Some t"
    "cur s3 = Some (snd (last ((f, t, d) # mid)))"
    by blast
  obtain tl dl where "snd (last ((f, t, d) # mid)) = (tl, dl)"
    by (cases "snd (last ((f, t, d) # mid))")
  with s3 have "collector_finish s3 = Inr (yielded s @ [(t, frame_end (last ((f, t, d) # mid)))])"
    by (simp add: collector_finish_def frame_end_def)
  with s3(1)
  show "\<exists>s3. collector_loop maxlen vad sample_rate s ((f, t, d) # mid) = Inr s3 \<and>
          collector_finish s3 = Inr (yielded s @ [(t, frame_end (last ((f, t, d) # mid)))])"
    by blast
qed

theorem C4_witness:
  "\<not> triggered buffered_state \<and> loud [1] 16000
   \<and> loud (fst (([1], 3, 1) :: real frame)) 16000
   \<and> \<not> loud [0] 16000
   \<and> collector_step 10 loud 16000 buffered_state ([1], 2, 1) =
       Inr \<lparr>ring_buffer = [], triggered = True, voiced_frames = [(0, 1), (2, 3)],
             start_time = Some 2, cur = Some (2, 1), yielded = []\<rparr>
   \<and> collector_loop 10 loud 16000 buffered_state ([([1], 2, 1), ([1], 3, 1)] @ [([0], 4, 1)]) =
       Inr \<lparr>ring_buffer = [], triggered = False, voiced_frames = [(0, 1), (2, 3), (3, 4)],
             start_time = Some 2, cur = Some (4, 1), yielded = [(2, 5)]\<rparr>
   \<and> collector_finish \<lparr>ring_buffer = [], triggered = True,
         voiced_frames = [(0, 1), (2, 3), (3, 4)],
         start_time = Some 2, cur = Some (3, 1), yielded = []\<rparr> = Inr [(2 :: real, 4)]"
  using C4_start_is_trigger_timestamp
    [of buffered_state loud "[1]" 16000 "[([1], 3, 1)]" 10 2 1 "[0]" 4 1]
  by (simp add: buffered_state_def loud_def collector_step_def collector_finish_def
      deque_append_def voiced_of_def frame_end_def)

section \<open>A speech run interrupted by one non-speech frame\<close>

text \<open>
  C3, as the code has it: in every configuration with which the collector builds its ring
  buffer, two non-empty speech runs separated by exactly one non-speech frame give
  exactly two segments.  The first ends at the end (timestamp + duration) of the non-speech
  frame and the second starts at the timestamp of the first frame of the second run, so the
  gap between them is that timestamp minus the end of the non-speech frame: on contiguous
  frames the gap is zero, the non-speech frame lying inside the first segment.
\<close>

theorem C3_single_gap_two_segments:
  fixes run1 run2 :: "('t::group_add) frame list"
  assumes "ring_capacity padding_duration_ms frame_duration_ms = Inr maxlen"
    and "run1 \<noteq> []" and "\<forall>fr\<in>set run1. vad (fst fr) sample_rate"
    and "\<not> vad (fst gap) sample_rate"
    and "run2 \<noteq> []" and "\<forall>fr\<in>set run2. vad (fst fr) sample_rate"
  shows "vad_collector sample_rate frame_duration_ms padding_duration_ms vad
           (run1 @ [gap] @ run2) =
           Inr [(frame_start (hd run1), frame_end gap),
                (frame_start (hd run2), frame_end (last run2))]
       \<and> segment_gaps [(frame_start (hd run1), frame_end gap),
                        (frame_start (hd run2), frame_end (last run2))] =
           [frame_start (hd run2) - frame_end gap]
       \<and> (frame_start (hd run2) = frame_end gap \<longrightarrow>
            segment_gaps [(frame_start (hd run1), frame_end gap),
                          (frame_start (hd run2), frame_end (last run2))] = [0])"
proof -
  obtain f1 t1 d1 mid1 where r1: "run1 = (f1, t1, d1) # mid1"
    using assms(2) by (cases run1) auto
  obtain f2 t2 d2 mid2 where r2: "run2 = (f2, t2, d2) # mid2"
    using assms(5) by (cases run2) auto
  obtain g tg dg where g: "gap = (g, tg, dg)"
    by (cases gap)
  have "\<not> triggered (init_state :: 't collector_state)"
    by (simp add: init_state_def)
  with collector_run_closed [of init_state vad f1 sample_rate mid1 g maxlen t1 d1 tg dg]
    assms(3,4) r1 g
  obtain sa where sa: "collector_loop maxlen vad sample_rate init_state (run1 @ [gap]) = Inr sa"
    "\<not> triggered sa" "yielded sa = [(t1, tg + dg)]"
    by (auto simp: init_state_def)
  from collector_run_open [of sa vad f2 sample_rate mid2 maxlen t2 d2] sa(2) assms(6) r2
  obtain sb where sb: "collector_loop maxlen vad sample_rate sa run2 = Inr sb"
    "triggered sb" "yielded sb = yielded sa" "start_time sb = Some t2"
    "cur sb = Some (snd (last run2))"
    by auto
  obtain tl dl where "snd (last run2) = (tl, dl)"
    by (cases "snd (last run2)")
  with sb sa(3) have fin: "collector_finish sb = Inr [(t1, tg + dg), (t2, frame_end (last run2))]"
    by (simp add: collector_finish_def frame_end_def)
  have "collector_loop maxlen vad sample_rate init_state ((run1 @ [gap]) @ run2) = Inr sb"
    by (simp only: collector_loop_append [of maxlen vad sample_rate init_state "run1 @ [gap]" run2]
        sa(1) sb(1) sum.case)
  with fin have "vad_collector sample_rate frame_duration_ms padding_duration_ms vad
      (run1 @ [gap] @ run2) = Inr [(t1, tg + dg), (t2, frame_end (last run2))]"
    by (simp add: vad_collector_accepted [OF assms(1)])
  then show ?thesis
    by (simp add: r1 r2 g frame_start_def frame_end_def)
qed

theorem C3_witness:
  "ring_capacity 300 30 = Inr 10
   \<and> synthetic_frames = take 5 synthetic_frames @ [synthetic_frames ! 5] @ drop 6 synthetic_frames
   \<and> loud (fst (synthetic_frames ! 4)) 16000 \<and> \<not> loud (fst (synthetic_frames ! 5)) 16000
   \<and> loud (fst (synthetic_frames ! 6)) 16000
   \<and> vad_collector 16000 30 300 loud synthetic_frames = Inr [(0, 6), (6, 10)]
   \<and> segment_gaps [(0 :: real, 6 :: real), (6, 10)] = [0]"
  using C3_single_gap_two_segments
    [of 300 30 10 "take 5 synthetic_frames" loud 16000 "synthetic_frames ! 5"
        "drop 6 synthetic_frames"]
  by (simp add: ring_capacity_300_30 synthetic_frames_def loud_def frame_start_def
      frame_end_def)

text \<open>
  C3 as stated fails on the synthetic sequence: the two segments are (0, 6) and (6, 10), and
  the gap between them is not as wide as frame 5, whose duration is 1.
\<close>

theorem C3_counterexample:
  "vad_collector 16000 30 300 loud synthetic_frames = Inr [(0, 6), (6, 10)]
   \<and> segment_gaps [(0, 6), (6, 10)] \<noteq> [snd (snd (synthetic_frames ! 5))]"
  by (simp add: vad_collector_def ring_capacity_300_30 collector_step_def
      collector_finish_def init_state_def loud_def synthetic_frames_def deque_append_def
      voiced_of_def)

section \<open>Independence of the padding duration\<close>

lemma collector_step_agree:
  assumes "agree a b"
  shows "rel_sum (=) agree (collector_step m1 vad sr a fr) (collector_step m2 vad sr b fr)"
proof -
  obtain f t d where fr: "fr = (f, t, d)" by (cases fr)
  show ?thesis
    using assms unfolding fr
    by (cases "start_time b") (auto simp: collector_step_def agree_def Let_def)
qed

lemma collector_loop_agree:
  "agree a b \<Longrightarrow>
   rel_sum (=) agree (collector_loop m1 vad sr a fs) (collector_loop m2 vad sr b fs)"
proof (induction fs arbitrary: a b)
  case Nil
  then show ?case by simp
next
  case (Cons fr fs)
  have rel: "rel_sum (=) agree (collector_step m1 vad sr a fr) (collector_step m2 vad sr b fr)"
    by (rule collector_step_agree [OF Cons.prems])
  show ?case
  proof (cases "collector_step m1 vad sr a fr")
    case (Inl e)
    with rel have "collector_step m2 vad sr b fr = Inl e"
      by (cases "collector_step m2 vad sr b fr") auto
    with Inl show ?thesis by simp
  next
    case (Inr a')
    with rel obtain b' where b': "collector_step m2 vad sr b fr = Inr b'" "agree a' b'"
      by (cases "collector_step m2 vad sr b fr") auto
    with Inr Cons.IH [of a' b'] show ?thesis by simp
  qed
qed

lemma collector_finish_agree:
  "agree a b \<Longrightarrow> collector_finish a = collector_finish b"
  by (auto simp: agree_def collector_finish_def split: option.splits)

lemma collector_run_independent:
  "(case collector_loop m1 vad sr init_state frames of
      Inl e \<Rightarrow> Inl e | Inr s \<Rightarrow> collector_finish s) =
   (case collector_loop m2 vad sr init_state frames of
      Inl e \<Rightarrow> Inl e | Inr s \<Rightarrow> collector_finish s)"
proof -
  have "agree (init_state :: 'a collector_state) init_state"
    by (simp add: agree_def)
  from collector_loop_agree [OF this, of m1 vad sr frames m2]
  show ?thesis
    by (cases "collector_loop m1 vad sr (init_state :: 'a collector_state) frames";
        cases "collector_loop m2 vad sr (init_state :: 'a collector_state) frames")
      (auto simp: collector_finish_agree)
qed

text \<open>
  C9, as the code has it: two runs of the collector that differ only in their padding
  durations return and yield the same segments whenever the collector builds its ring
  buffer for both, that is, when \<open>frame_duration_ms\<close> is not 0 and
  \<open>int(p / frame_duration_ms)\<close> is at least 0 and less than \<open>2 ^ 63\<close> for both paddings
  \<open>p\<close>.
\<close>

theorem C9_padding_independent:
  assumes "ring_capacity p1 frame_duration_ms = Inr m1"
    and "ring_capacity p2 frame_duration_ms = Inr m2"
  shows "\<exists>segs. vad_collector sample_rate frame_duration_ms p1 vad frames = Inr segs
           \<and> vad_collector sample_rate frame_duration_ms p2 vad frames = Inr segs"
  using collector_run_independent [of m1 vad sample_rate frames m2]
    collector_run_returns [of m1 vad sample_rate frames]
  by (auto simp: vad_collector_accepted [OF assms(1)] vad_collector_accepted [OF assms(2)])

theorem C9_witness:
  "ring_capacity 0 30 = Inr 0 \<and> ring_capacity 300 30 = Inr 10
   \<and> vad_collector 16000 30 0 loud synthetic_frames = Inr [(0, 6), (6, 10)]
   \<and> vad_collector 16000 30 300 loud synthetic_frames = Inr [(0, 6), (6, 10)]"
  using C9_padding_independent [of 0 30 0 300 10 16000 loud synthetic_frames]
  by (simp add: vad_collector_def ring_capacity_300_30 ring_capacity_zero_padding
      collector_step_def collector_finish_def init_state_def loud_def synthetic_frames_def
      deque_append_def voiced_of_def)

text \<open>
  C9 as stated, for any two non-negative paddings, fails with a frame duration of -30: with
  padding 0 the collector yields (0, 3) on three speech frames, and with padding 300 it
  raises ValueError, since \<open>int(300 / -30) = -10\<close> is no capacity of a deque.
\<close>

theorem C9_counterexample:
  "vad_collector 16000 (- 30) 0 loud speech_frames = Inr [(0, 3)]
   \<and> vad_collector 16000 (- 30) 300 loud speech_frames = Inl ValueError"
  by (simp add: vad_collector_def ring_capacity_300_neg ring_capacity_zero_padding
      collector_step_def collector_finish_def init_state_def loud_def speech_frames_def
      deque_append_def voiced_of_def)

section \<open>Disjoint and ordered segments\<close>

lemma segments_ordered_snoc:
  "segments_ordered (xs @ [a]) =
     (segments_ordered xs \<and> fst a < snd a \<and> (xs \<noteq> [] \<longrightarrow> snd (last xs) \<le> fst a))"
  by (induction xs rule: segments_ordered.induct) auto

lemma segments_ordered_valid:
  "segments_ordered segs \<Longrightarrow> g \<in> set segs \<Longrightarrow> fst g < snd g"
  by (induction segs rule: segments_ordered.induct) auto

lemma segments_ordered_adjacent:
  "segments_ordered segs \<Longrightarrow> Suc i < length segs \<Longrightarrow> snd (segs ! i) \<le> fst (segs ! Suc i)"
proof (induction segs arbitrary: i rule: segments_ordered.induct)
  case (3 a b rest)
  then show ?case by (cases i) auto
qed auto

lemma segments_ordered_starts:
  fixes segs :: "('t::order) segment list"
  assumes "segments_ordered segs" and "Suc i < length segs"
  shows "fst (segs ! i) < fst (segs ! Suc i)"
proof -
  have "fst (segs ! i) < snd (segs ! i)"
    using segments_ordered_valid [OF assms(1), of "segs ! i"] assms(2) by simp
  also have "snd (segs ! i) \<le> fst (segs ! Suc i)"
    by (rule segments_ordered_adjacent [OF assms])
  finally show ?thesis .
qed

lemma frames_ordered_after:
  fixes fs :: "('t::{plus,order}) frame list"
  shows "frames_ordered fs \<Longrightarrow> fs \<noteq> [] \<Longrightarrow> frames_after (frame_start (hd fs)) fs"
  by (induction fs rule: frames_ordered.induct) (auto simp: frame_start_def)

lemma collector_step_inv:
  fixes lo t d :: "'t::{plus,order}"
  assumes "collector_inv lo s" and "lo \<le> t" and "t < t + d"
  shows "\<exists>s'. collector_step m vad sr s (f, t, d) = Inr s' \<and> collector_inv (t + d) s'"
proof -
  have b: "triggered s \<longrightarrow> start_time s \<noteq> None"
    using assms(1) by (auto simp: collector_inv_def)
  from collector_step_obs [OF b, of m vad sr f t d]
  obtain s' where s': "collector_step m vad sr s (f, t, d) = Inr s'"
    "cur s' = Some (t, d)" "triggered s' = vad f sr"
    "yielded s' = (if triggered s \<and> \<not> vad f sr
                   then yielded s @ [(the (start_time s), t + d)] else yielded s)"
    "start_time s' = (if \<not> triggered s \<and> vad f sr then Some t else start_time s)"
    by blast
  have ord: "segments_ordered (yielded s)"
    and below: "\<forall>g\<in>set (yielded s). snd g \<le> lo"
    using assms(1) by (auto simp: collector_inv_def)
  have lo_end: "lo < t + d"
    using assms(2,3) by (rule le_less_trans)
  have below_t: "\<forall>g\<in>set (yielded s). snd g \<le> t"
    using below assms(2) by (auto intro: order_trans)
  have below_end: "\<forall>g\<in>set (yielded s). snd g \<le> t + d"
    using below lo_end by (auto intro: order_trans less_imp_le)
  have "collector_inv (t + d) s'"
  proof (cases "triggered s")
    case False
    with s'(2-5) ord below_t below_end assms(3) show ?thesis
      by (auto simp: collector_inv_def)
  next
    case True
    with assms(1) obtain st where st: "start_time s = Some st" "st < lo"
      "\<forall>g\<in>set (yielded s). snd g \<le> st"
      by (auto simp: collector_inv_def)
    have st_end: "st < t + d"
      using st(2) lo_end by (rule less_trans)
    show ?thesis
    proof (cases "vad f sr")
      case True
      with \<open>triggered s\<close> s'(2-5) ord below_end st st_end show ?thesis
        by (auto simp: collector_inv_def)
    next
      case False
      have "segments_ordered (yielded s @ [(st, t + d)])"
        using ord st(3) st_end by (auto simp: segments_ordered_snoc)
      with False \<open>triggered s\<close> s'(2-5) below_end st show ?thesis
        by (auto simp: collector_inv_def)
    qed
  qed
  with s'(1) show ?thesis by blast
qed

lemma collector_loop_inv:
  fixes lo :: "'t::{plus,order}"
  shows "collector_inv lo s \<Longrightarrow> frames_after lo fs \<Longrightarrow>
   \<exists>s' lo'. collector_loop m vad sr s fs = Inr s' \<and> collector_inv lo' s'"
proof (induction fs arbitrary: lo s)
  case Nil
  then show ?case by auto
next
  case (Cons fr fs)
  obtain f t d where fr: "fr = (f, t, d)" by (cases fr)
  from Cons.prems(2) fr have ok: "lo \<le> t" "t < t + d" "frames_after (t + d) fs"
    by auto
  from collector_step_inv [OF Cons.prems(1) ok(1,2), of m vad sr f]
  obtain s1 where s1: "collector_step m vad sr s (f, t, d) = Inr s1" "collector_inv (t + d) s1"
    by blast
  from Cons.IH [OF s1(2) ok(3)] s1(1) fr show ?case by simp
qed

lemma collector_finish_inv:
  fixes lo :: "'t::{plus,order}"
  assumes "collector_inv lo s"
  shows "\<exists>segs. collector_finish s = Inr segs \<and> segments_ordered segs"
proof (cases "triggered s")
  case False
  with assms show ?thesis by (simp add: collector_finish_def collector_inv_def)
next
  case True
  with assms obtain st t d where st: "start_time s = Some st" "cur s = Some (t, d)"
    "lo = t + d" "st < lo" "\<forall>g\<in>set (yielded s). snd g \<le> st" "segments_ordered (yielded s)"
    by (auto simp: collector_inv_def)
  with True show ?thesis
    by (simp add: collector_finish_def segments_ordered_snoc)
qed

text \<open>
  C1: in every configuration with which the collector builds its ring buffer, for every
  oracle and every frame sequence in which each frame ends after it starts and starts no
  earlier than the end of its predecessor, the collector returns a segment sequence that
  is disjoint and ordered: every segment starts before it ends, and each segment ends no
  later than the next one starts, so that the start times increase strictly.  The
  timestamps may be of any ordered type with an addition, of which no law is used: the
  statement covers floats that are not NaN, with their rounding addition.
\<close>

theorem C1_segments_disjoint_ordered:
  fixes frames :: "('t::{plus,order}) frame list"
  assumes "ring_capacity padding_duration_ms frame_duration_ms = Inr maxlen"
    and "frames_ordered frames"
  shows "\<exists>segs. vad_collector sample_rate frame_duration_ms padding_duration_ms vad frames =
                  Inr segs
           \<and> segments_ordered segs
           \<and> (\<forall>g\<in>set segs. fst g < snd g)
           \<and> (\<forall>i. Suc i < length segs \<longrightarrow>
                  snd (segs ! i) \<le> fst (segs ! Suc i) \<and> fst (segs ! i) < fst (segs ! Suc i))"
proof -
  have init: "collector_inv lo (init_state :: 't collector_state)" for lo
    by (simp add: collector_inv_def init_state_def)
  have "\<exists>lo. frames_after lo frames"
  proof (cases frames)
    case Nil
    then show ?thesis by simp
  next
    case (Cons fr rest)
    with frames_ordered_after [OF assms(2)] show ?thesis by blast
  qed
  then obtain lo where "frames_after lo frames" ..
  from collector_loop_inv [OF init this, of maxlen vad sample_rate]
  obtain s' lo' where s': "collector_loop maxlen vad sample_rate init_state frames = Inr s'"
    "collector_inv lo' s'"
    by blast
  from collector_finish_inv [OF s'(2)]
  obtain segs where segs: "collector_finish s' = Inr segs" "segments_ordered segs"
    by blast
  from s'(1) segs(1)
  have "vad_collector sample_rate frame_duration_ms padding_duration_ms vad frames = Inr segs"
    by (simp add: vad_collector_accepted [OF assms(1)])
  with segs(2) show ?thesis
    using segments_ordered_valid [of segs] segments_ordered_adjacent [of segs]
      segments_ordered_starts [of segs]
    by blast
qed

theorem C1_witness:
  "ring_capacity 300 30 = Inr 10 \<and> frames_ordered synthetic_frames
   \<and> vad_collector 16000 30 300 loud synthetic_frames = Inr [(0, 6), (6, 10)]
   \<and> segments_ordered [(0 :: real, 6 :: real), (6, 10)]"
  using C1_segments_disjoint_ordered [of 300 30 10 synthetic_frames 16000 loud]
  by (simp add: vad_collector_def ring_capacity_300_30 collector_step_def
      collector_finish_def init_state_def loud_def synthetic_frames_def deque_append_def
      voiced_of_def)

section \<open>The frames of frame_generator\<close>

lemma div_bound:
  fixes n j L :: int
  assumes "0 < n"
  shows "(j < (L - 1) div n) = (j * n + n < L)"
proof -
  have "(j < (L - 1) div n) = (j + 1 \<le> \<lfloor>real_of_int (L - 1) / real_of_int n\<rfloor>)"
    by (simp only: floor_divide_of_int_eq) auto
  also have "\<dots> = (real_of_int (j + 1) \<le> real_of_int (L - 1) / real_of_int n)"
    by (rule le_floor_iff)
  also have "\<dots> = (real_of_int (j + 1) * real_of_int n \<le> real_of_int (L - 1))"
    using assms by (simp add: pos_le_divide_eq)
  also have "\<dots> = ((j + 1) * n \<le> L - 1)"
    by (simp only: of_int_mult [symmetric] of_int_le_iff)
  also have "\<dots> = (j * n + n < L)"
  proof -
    have "(j + 1) * n = j * n + n" by (simp add: algebra_simps)
    then show ?thesis by auto
  qed
  finally show ?thesis .
qed

lemma div_remainder:
  fixes n r :: int
  assumes "0 < r" and "r < n"
  shows "(int k * n + r - 1) div n = int k"
proof -
  have d: "(int k * n + (r - 1)) div n = int k + (r - 1) div n"
    by (rule div_mult_self3) (use assms in auto)
  have z: "(r - 1) div n = 0" using assms by simp
  have e: "int k * n + r - 1 = int k * n + (r - 1)" by simp
  show ?thesis by (simp only: e d z add_0_right)
qed

lemma div_exact:
  fixes n :: int
  assumes "0 < n" and "0 < k"
  shows "(int k * n - 1) div n = int k - 1"
proof -
  have d: "((int k - 1) * n + (n - 1)) div n = (int k - 1) + (n - 1) div n"
    by (rule div_mult_self3) (use assms in auto)
  have z: "(n - 1) div n = 0" using assms by simp
  have e: "int k * n - 1 = (int k - 1) * n + (n - 1)" by (simp add: algebra_simps)
  show ?thesis by (simp only: e d z add_0_right)
qed

lemma frame_loop_diverges_aux:
  assumes "frame_loop n dur audio offset ts acc = Some y"
  shows "\<not> (n \<le> 0 \<and> offset + n < int (length audio))"
proof (rule frame_loop.raw_induct
      [where P = "\<lambda>n dur audio offset ts acc y. \<not> (n \<le> 0 \<and> offset + n < int (length audio))",
        OF _ assms])
  fix f :: "int \<Rightarrow> py_float \<Rightarrow> bytes \<Rightarrow> int \<Rightarrow> py_float \<Rightarrow> py_float frame list \<Rightarrow>
      py_float frame list option"
    and n dur audio offset ts acc y
  assume IH: "\<And>n dur audio offset ts acc y. f n dur audio offset ts acc = Some y \<Longrightarrow>
      \<not> (n \<le> 0 \<and> offset + n < int (length audio))"
    and step: "(if offset + n < int (length audio)
      then f n dur audio (offset + n) (ts + dur)
             (acc @ [(py_slice audio offset (offset + n), ts, dur)])
      else Some acc) = Some y"
  show "\<not> (n \<le> 0 \<and> offset + n < int (length audio))"
  proof
    assume a: "n \<le> 0 \<and> offset + n < int (length audio)"
    with step have "f n dur audio (offset + n) (ts + dur)
        (acc @ [(py_slice audio offset (offset + n), ts, dur)]) = Some y"
      by simp
    from IH [OF this] a show False by simp
  qed
qed

lemma frame_loop_diverges:
  "n \<le> 0 \<Longrightarrow> offset + n < int (length audio) \<Longrightarrow> frame_loop n dur audio offset ts acc = None"
  using frame_loop_diverges_aux [of n dur audio offset ts acc]
  by (cases "frame_loop n dur audio offset ts acc") auto

lemma py_slice_inner:
  "0 \<le> i \<Longrightarrow> i \<le> j \<Longrightarrow> j \<le> int (length xs) \<Longrightarrow>
   py_slice xs i j = take (nat (j - i)) (drop (nat i) xs)"
  by (simp add: py_slice_def Let_def min_def)

lemma concat_tiles:
  "concat (map (\<lambda>i. take m (drop (i * m) xs)) [0..<c]) = take (c * m) xs"
  by (induction c) (simp_all add: take_add [symmetric] add.commute)

lemma frame_loop_frames:
  assumes "0 < n"
  shows "frame_loop n dur audio (int j * n) (((\<lambda>t. t + dur) ^^ j) (Finite 0 0)) acc =
           Some (acc @ map (nth_frame n dur audio) [j..<nat ((int (length audio) - 1) div n)])"
proof (induction "nat ((int (length audio) - 1) div n) - j" arbitrary: j acc)
  case 0
  then have "\<not> int j < (int (length audio) - 1) div n" by linarith
  then have "\<not> int j * n + n < int (length audio)"
    by (simp add: div_bound [OF assms])
  moreover from 0 have "[j..<nat ((int (length audio) - 1) div n)] = []" by simp
  ultimately show ?case
    by (subst frame_loop.simps) simp
next
  case (Suc c)
  then have lt: "j < nat ((int (length audio) - 1) div n)" by linarith
  then have "int j < (int (length audio) - 1) div n" by linarith
  then have go: "int j * n + n < int (length audio)"
    by (simp add: div_bound [OF assms])
  have c: "c = nat ((int (length audio) - 1) div n) - Suc j" using Suc(2) by linarith
  have next_off: "int j * n + n = int (Suc j) * n" by (simp add: algebra_simps)
  have go': "int (Suc j) * n < int (length audio)" using go by (simp only: next_off)
  have "py_slice audio (int j * n) (int j * n + n) = take (nat n) (drop (j * nat n) audio)"
    using assms go by (simp add: py_slice_inner nat_mult_distrib)
  then have sl: "py_slice audio (int j * n) (int (Suc j) * n) =
      take (nat n) (drop (j * nat n) audio)"
    by (simp only: next_off)
  have next_ts: "((\<lambda>t. t + dur) ^^ j) (Finite 0 0) + dur = ((\<lambda>t. t + dur) ^^ Suc j) (Finite 0 0)"
    by simp
  have "frame_loop n dur audio (int j * n) (((\<lambda>t. t + dur) ^^ j) (Finite 0 0)) acc =
        frame_loop n dur audio (int (Suc j) * n) (((\<lambda>t. t + dur) ^^ Suc j) (Finite 0 0))
          (acc @ [nth_frame n dur audio j])"
    by (subst frame_loop.simps) (simp only: go' if_True sl next_off next_ts nth_frame_def)
  also have "\<dots> = Some ((acc @ [nth_frame n dur audio j]) @
      map (nth_frame n dur audio) [Suc j..<nat ((int (length audio) - 1) div n)])"
    by (rule Suc(1) [OF c])
  also have "\<dots> = Some (acc @ map (nth_frame n dur audio) [j..<nat ((int (length audio) - 1) div n)])"
    using lt by (simp add: upt_conv_Cons)
  finally show ?case .
qed

lemma frame_generator_frames:
  assumes "frame_len sr fd = Inr n" and "frame_secs n sr = Inr dur" and "0 < n"
  shows "frame_generator fd audio sr =
           Some (Inr (map (nth_frame n dur audio) [0..<nat ((int (length audio) - 1) div n)]))"
  using frame_loop_frames [OF assms(3), of dur audio 0 "[]"]
  by (simp add: frame_generator_def assms(1,2))

lemma frame_generator_short:
  assumes "frame_len sr fd = Inr n" and "frame_secs n sr = Inr dur" and "0 < n"
    and "int (length audio) \<le> n"
  shows "frame_generator fd audio sr = Some (Inr [])"
proof -
  have "(int (length audio) - 1) div n \<le> 0"
  proof (cases "audio = []")
    case True
    with assms(3) have "(int (length audio) - 1) div n < 0"
      by (simp add: div_neg_pos_less0)
    then show ?thesis by simp
  next
    case False
    then have "0 \<le> int (length audio) - 1" by (cases audio) auto
    with assms(3,4) show ?thesis by simp
  qed
  then have "nat ((int (length audio) - 1) div n) = 0"
    by simp
  then show ?thesis
    by (simp add: frame_generator_frames [OF assms(1-3)])
qed

lemma concat_frames:
  "concat (map (fst \<circ> nth_frame n dur audio) [0..<c]) = take (c * nat n) audio"
  using concat_tiles [of "nat n" audio c]
  by (simp add: nth_frame_def comp_def)

lemma frame_len_100_145: "frame_len 100 145 = Inr 28"
  by code_simp

lemma frame_secs_28_100: "frame_secs 28 100 = Inr (Finite 1261007895663739 (- 53))"
  by code_simp

lemma frame_len_16_30: "frame_len 16 30 = Inr 0"
  by code_simp

lemma frame_secs_0_16: "frame_secs 0 16 = Inr (Finite 0 0)"
  by code_simp

lemma frame_len_16000_0: "frame_len 16000 0 = Inr 0"
  by code_simp

lemma frame_secs_0_16000: "frame_secs 0 16000 = Inr (Finite 0 0)"
  by code_simp

lemma frame_generator_audio58:
  "frame_generator 145 audio58 100 =
     Some (Inr [(take 28 audio58, Finite 0 0, Finite 1261007895663739 (- 53)),
                (take 28 (drop 28 audio58), Finite 1261007895663739 (- 53),
                 Finite 1261007895663739 (- 53))])"
  by code_simp

lemma audio58_rest: "drop 56 audio58 = [56, 57]"
  by code_simp

lemma length_audio58: "length audio58 = 58"
  by (simp add: audio58_def)

lemma length_audio56: "length audio56 = 56"
  by (simp add: audio56_def)

lemma length_audio813: "length audio813 = 813"
  by (simp add: audio813_def)

lemma frame_generator_audio56:
  "frame_generator 145 audio56 100 =
     Some (Inr [(take 28 audio56, Finite 0 0, Finite 1261007895663739 (- 53))])"
  by code_simp

text \<open>
  C5: let \<open>n\<close> be the frame length and \<open>duration\<close> the frame duration that the code computes.
  When the buffer holds \<open>k\<close> full frames of \<open>n\<close> bytes and a remainder of \<open>r\<close> bytes with
  \<open>0 < r < n\<close>, the generator returns exactly the \<open>k\<close> frames number 0 to \<open>k - 1\<close>.
  Together they are the first \<open>k * n\<close> bytes of the buffer, so the \<open>r\<close> bytes of the
  remainder are in no frame.
\<close>

theorem C5_partial_frame_dropped:
  assumes "frame_len sample_rate frame_duration_ms = Inr n"
    and "frame_secs n sample_rate = Inr duration"
    and "int (length audio) = int k * n + r" and "0 < r" and "r < n"
  shows "\<exists>frames. frame_generator frame_duration_ms audio sample_rate = Some (Inr frames)
           \<and> frames = map (nth_frame n duration audio) [0..<k]
           \<and> length frames = k
           \<and> concat (map fst frames) = take (k * nat n) audio
           \<and> length (drop (k * nat n) audio) = nat r"
proof -
  have pos: "0 < n"
    using assms(4,5) by simp
  have "(int (length audio) - 1) div n = int k"
    using div_remainder [OF assms(4,5), of k] assms(3) by simp
  then have count: "nat ((int (length audio) - 1) div n) = k"
    by simp
  have "int (length audio) - int (k * nat n) = r"
    using assms(3) pos by simp
  then have rest: "length audio - k * nat n = nat r"
    by linarith
  show ?thesis
    using frame_generator_frames [OF assms(1,2) pos, of audio] count rest
    by (simp add: concat_frames)
qed

theorem C5_witness:
  "frame_len 100 145 = Inr 28
   \<and> frame_secs 28 100 = Inr (Finite 1261007895663739 (- 53))
   \<and> int (length audio58) = int 2 * 28 + 2 \<and> (0::int) < 2 \<and> (2::int) < 28
   \<and> frame_generator 145 audio58 100 =
       Some (Inr [(take 28 audio58, Finite 0 0, Finite 1261007895663739 (- 53)),
                  (take 28 (drop 28 audio58), Finite 1261007895663739 (- 53),
                   Finite 1261007895663739 (- 53))])
   \<and> drop (2 * nat 28) audio58 = [56, 57]
   \<and> int (length audio813) = int 29 * 28 + 1
   \<and> map_option (map_sum id length) (frame_generator 145 audio813 100) = Some (Inr 29)"
  using C5_partial_frame_dropped
    [of 100 145 28 "Finite 1261007895663739 (- 53)" audio58 2 2]
    C5_partial_frame_dropped
    [of 100 145 28 "Finite 1261007895663739 (- 53)" audio813 29 1]
  by (auto simp: frame_len_100_145 frame_secs_28_100 frame_generator_audio58 audio58_rest
      length_audio58 length_audio813)

text \<open>
  C10: let \<open>n\<close> be the frame length and \<open>duration\<close> the frame duration that the code
  computes.  When the length of the buffer is exactly \<open>k\<close> frames of \<open>n\<close> bytes, with \<open>k\<close>
  and \<open>n\<close> positive, the generator returns only the \<open>k - 1\<close> frames number 0 to \<open>k - 2\<close>:
  the first \<open>(k - 1) * n\<close> bytes.  The last full frame, which ends where the buffer ends,
  is not yielded.
\<close>

theorem C10_last_full_frame_dropped:
  assumes "frame_len sample_rate frame_duration_ms = Inr n"
    and "frame_secs n sample_rate = Inr duration"
    and "0 < n" and "0 < k"
    and "int (length audio) = int k * n"
  shows "\<exists>frames. frame_generator frame_duration_ms audio sample_rate = Some (Inr frames)
           \<and> frames = map (nth_frame n duration audio) [0..<k - 1]
           \<and> length frames = k - 1
           \<and> concat (map fst frames) = take ((k - 1) * nat n) audio
           \<and> length (drop ((k - 1) * nat n) audio) = nat n"
proof -
  have "(int (length audio) - 1) div n = int k - 1"
    using div_exact [OF assms(3,4)] assms(5) by simp
  then have count: "nat ((int (length audio) - 1) div n) = k - 1"
    using assms(4) by simp
  have "int (length audio) - int ((k - 1) * nat n) = n"
    using assms(3,4,5) by (simp add: algebra_simps of_nat_diff)
  then have rest: "length audio - (k - 1) * nat n = nat n"
    by linarith
  show ?thesis
    using frame_generator_frames [OF assms(1,2,3), of audio] count rest
    by (simp add: concat_frames)
qed

theorem C10_witness:
  "frame_len 100 145 = Inr 28
   \<and> frame_secs 28 100 = Inr (Finite 1261007895663739 (- 53))
   \<and> (0::int) < 28 \<and> (0::nat) < 2 \<and> int (length audio56) = int 2 * 28
   \<and> frame_generator 145 audio56 100 =
       Some (Inr [(take 28 audio56, Finite 0 0, Finite 1261007895663739 (- 53))])
   \<and> length (drop ((2 - 1) * nat 28) audio56) = nat 28"
  using C10_last_full_frame_dropped
    [of 100 145 28 "Finite 1261007895663739 (- 53)" 2 audio56]
  by (simp add: frame_len_100_145 frame_secs_28_100 frame_generator_audio56 length_audio56)

section \<open>Termination of frame_generator\<close>

text \<open>
  C7 fails on the code.  At 16 samples per second a frame of 30 ms has
  \<open>int(16 * (30 / 1000.0) * 2) = int(0.96) = 0\<close> bytes; the offset then never advances, and
  on a non-empty buffer the loop never ends, although sample rate and frame duration are
  positive.
\<close>

theorem C7_no_termination:
  "frame_len 16 30 = Inr 0 \<and> frame_generator 30 [0, 0] 16 = None"
  by (simp add: frame_generator_def frame_len_16_30 frame_secs_0_16 frame_loop_diverges)

section \<open>Malformed configurations\<close>

lemma frame_generator_zero_duration:
  assumes "sample_rate \<noteq> 0" and "py_float_of_int sample_rate = Inr x"
  shows "frame_generator 0 [] sample_rate = Some (Inr [])"
proof -
  from assms(2) obtain m e where x: "x = Finite m e"
    by (cases "round_ratio sample_rate 1") (auto simp: py_float_of_int_def)
  with assms have nz: "m \<noteq> 0"
    by (auto dest: py_float_of_int_nonzero)
  have zero: "py_float_of_int 0 = Inr (Finite 0 0)"
    by (simp add: py_float_of_int_def round_ratio_zero)
  have len: "frame_len sample_rate 0 = Inr 0"
    using assms(2)
    by (simp add: frame_len_def zero x float_truediv_def round_ratio_zero
        round_dyadic_def py_int_def float_trunc_def)
  have secs: "frame_secs 0 sample_rate = Inr (Finite 0 0)"
    using assms(2) nz
    by (simp add: frame_secs_def zero x float_truediv_def round_ratio_zero sgn_if)
  show ?thesis
    by (subst frame_generator_def) (simp add: len secs frame_loop.simps)
qed

text \<open>
  C8, as the code has it: neither function validates its configuration, and neither knows
  a ConfigurationError or InvalidInput.  With a frame duration of 0 the collector raises
  the ZeroDivisionError of its division.  With any other frame duration, the negative
  ones included, and padding 0 it raises nothing and yields what it yields in the
  configuration (30, 300).  With a frame duration of 0, an empty buffer and a sample rate
  that is not 0 and not too large for a float, \<open>frame_generator\<close> returns zero frames and
  no error.
  A buffer no longer than one frame of positive length gives zero frames.
\<close>

theorem C8_no_validation:
  "vad_collector sample_rate 0 padding_duration_ms vad frames = Inl ZeroDivisionError
   \<and> (frame_duration_ms \<noteq> 0 \<longrightarrow>
        (\<exists>segs. vad_collector sample_rate frame_duration_ms 0 vad frames = Inr segs \<and>
           vad_collector sample_rate 30 300 vad frames = Inr segs))
   \<and> (rate \<noteq> 0 \<and> py_float_of_int rate = Inr x \<longrightarrow>
        frame_generator 0 [] rate = Some (Inr []))
   \<and> (frame_len rate frame_ms = Inr n \<and> frame_secs n rate = Inr duration \<and> 0 < n \<and>
        int (length audio) \<le> n \<longrightarrow>
        frame_generator frame_ms audio rate = Some (Inr []))"
proof (intro conjI impI)
  show "vad_collector sample_rate 0 padding_duration_ms vad frames = Inl ZeroDivisionError"
    by (simp add: vad_collector_def ring_capacity_zero_duration)
next
  assume "frame_duration_ms \<noteq> 0"
  then have "ring_capacity 0 frame_duration_ms = Inr 0"
    by (rule ring_capacity_zero_padding)
  then show "\<exists>segs. vad_collector sample_rate frame_duration_ms 0 vad frames = Inr segs \<and>
      vad_collector sample_rate 30 300 vad frames = Inr segs"
    using collector_run_independent [of 0 vad sample_rate frames 10]
      collector_run_returns [of 0 vad sample_rate frames]
    by (auto simp: vad_collector_accepted vad_collector_accepted [OF ring_capacity_300_30])
next
  assume "rate \<noteq> 0 \<and> py_float_of_int rate = Inr x"
  then show "frame_generator 0 [] rate = Some (Inr [])"
    by (auto intro: frame_generator_zero_duration)
next
  assume "frame_len rate frame_ms = Inr n \<and> frame_secs n rate = Inr duration \<and> 0 < n \<and>
    int (length audio) \<le> n"
  then show "frame_generator frame_ms audio rate = Some (Inr [])"
    by (auto intro: frame_generator_short)
qed

lemma py_float_of_int_16000: "py_float_of_int 16000 = Inr (Finite 125 7)"
  by code_simp

theorem C8_witness:
  "vad_collector 16000 0 300 loud speech_frames = Inl ZeroDivisionError
   \<and> (- 30 :: int) \<noteq> 0
   \<and> vad_collector 16000 (- 30) 0 loud speech_frames = Inr [(0, 3)]
   \<and> vad_collector 16000 30 300 loud speech_frames = Inr [(0, 3)]
   \<and> (16000 :: int) \<noteq> 0 \<and> py_float_of_int 16000 = Inr (Finite 125 7)
   \<and> frame_generator 0 [] 16000 = Some (Inr [])
   \<and> frame_len 100 145 = Inr 28
   \<and> frame_secs 28 100 = Inr (Finite 1261007895663739 (- 53))
   \<and> frame_generator 145 [0, 0, 0] 100 = Some (Inr [])"
  using C8_no_validation [of 16000 300 loud speech_frames "- 30" 16000 "Finite 125 7"]
    C8_no_validation [of 16000 300 loud speech_frames "- 30" 100 "Finite 0 0" 145 28
      "Finite 1261007895663739 (- 53)" "[0, 0, 0]"]
  by (simp add: py_float_of_int_16000 frame_len_100_145 frame_secs_28_100)
    (simp add: vad_collector_def ring_capacity_300_30 collector_step_def
      collector_finish_def init_state_def loud_def speech_frames_def deque_append_def
      voiced_of_def)

text \<open>
  C8 as stated fails: a frame duration of 0 on an empty buffer gives zero frames and no
  error, and a frame duration of -30 with padding 0 gives the collector's usual result.
\<close>

theorem C8_counterexample:
  "frame_generator 0 [] 16000 = Some (Inr [])
   \<and> vad_collector 16000 (- 30) 0 loud synthetic_frames = Inr [(0, 6), (6, 10)]"
  by (simp add: frame_generator_def frame_len_16000_0 frame_secs_0_16000 frame_loop.simps
      vad_collector_def ring_capacity_zero_padding collector_step_def collector_finish_def
      init_state_def loud_def synthetic_frames_def deque_append_def voiced_of_def)

end
